theory Spec2Isabelle
  imports Complex_Main
begin

section \<open>Data model (src/lib/types.ts)\<close>

text \<open>
  The console is a TypeScript/React program. Its \<^verbatim>\<open>number\<close> values are modelled as
  follows: millisecond clock readings (\<^verbatim>\<open>Date.now()\<close>) and their differences are
  \<^typ>\<open>int\<close>, array lengths and counters are \<^typ>\<open>nat\<close>, confidences and pixel
  coordinates are exact \<^typ>\<open>real\<close>s (the rounding of IEEE doubles is not modelled).
  Where the source divides, the quotient is a \<open>jsnum\<close>, so that \<^verbatim>\<open>0 / 0\<close> is the
  value \<open>NaN\<close> it is in JavaScript and not the \<open>0\<close> of HOL.
\<close>

datatype jsnum = Num real | PosInf | NegInf | NaN

text \<open>\<^verbatim>\<open>a / b\<close> on two finite numbers (the divisors of this program are lengths and
  pixel sizes, never negative zero).\<close>

definition js_div :: "real \<Rightarrow> real \<Rightarrow> jsnum" where
  "js_div a b =
     (if b \<noteq> 0 then Num (a / b)
      else if a = 0 then NaN
      else if 0 < a then PosInf else NegInf)"






datatype health_state = Ok | Degraded

record camera_status =
  available :: bool
  using_mock :: bool
  width :: nat
  height :: nat
  fps :: nat

record model_status =
  loaded :: bool
  path :: "string option"
  autoload :: "bool option"

record health_status =
  status :: health_state
  camera :: camera_status
  model :: model_status

record bounding_box =
  label :: string
  confidence :: real
  x_min :: real
  y_min :: real
  x_max :: real
  y_max :: real

record response_metadata =
  model_path :: "string option"
  detection_count :: nat
  inference_ms :: real
  meta_note :: "string option"

record inference_response =
  resp_detections :: "bounding_box list"
  resp_metadata :: response_metadata
  encoded_image :: "string option"

text \<open>A \<^verbatim>\<open>Date\<close> is its epoch time in milliseconds.\<close>

record detection_event =
  event_id :: string
  timestamp :: int
  detections :: "bounding_box list"
  thumbnail :: "string option"
  metadata :: response_metadata

record session_stats =
  avgLatency :: jsnum
  p95Latency :: int
  detectionsPerMin :: nat
  totalFrames :: nat
  latencyHistory :: "int list"

datatype toast = ModelNotLoaded | InferenceFailed string | ConnectionError

text \<open>What a rejected promise carries: an \<^verbatim>\<open>Error\<close> with its message, or any other value.\<close>

datatype rejection = ErrorObject string | OtherValue


section \<open>The page: health polling and the detection event store (src/app/page.tsx)\<close>

record console_state =
  health :: "health_status option"
  lastHealthUpdate :: "int option"
  sessionStats :: session_stats
  detectionEvents :: "detection_event list"
  page_toasts :: "toast list"

text \<open>The initial values of the \<^verbatim>\<open>useState\<close> calls of \<^verbatim>\<open>EdgeDeviceConsole\<close>.\<close>

definition initial_stats :: session_stats where
  "initial_stats =
     \<lparr>avgLatency = Num 0, p95Latency = 0, detectionsPerMin = 0, totalFrames = 0,
      latencyHistory = []\<rparr>"

definition initial_console :: console_state where
  "initial_console =
     \<lparr>health = None, lastHealthUpdate = None, sessionStats = initial_stats,
      detectionEvents = [], page_toasts = []\<rparr>"

text \<open>
  \<^verbatim>\<open>pollHealth\<close> (page.tsx 41-57). The outcome of \<^verbatim>\<open>await api.getHealth()\<close> is an
  input: \<open>Inr h\<close> when the promise resolves with \<open>h\<close>, \<open>Inl e\<close> when it rejects. \<open>now\<close>
  is the \<^verbatim>\<open>new Date()\<close> of line 47. The updater of line 50 is
  \<^verbatim>\<open>prev ? { ...prev, status: "degraded" } : null\<close>.
\<close>

definition degrade :: "health_status option \<Rightarrow> health_status option" where
  "degrade prev = (case prev of Some h \<Rightarrow> Some (h\<lparr>status := Degraded\<rparr>) | None \<Rightarrow> None)"

definition pollHealth :: "string + health_status \<Rightarrow> int \<Rightarrow> console_state \<Rightarrow> console_state" where
  "pollHealth outcome now s =
     (case outcome of
        Inr healthData \<Rightarrow> s\<lparr>health := Some healthData, lastHealthUpdate := Some now\<rparr>
      | Inl err \<Rightarrow> s\<lparr>health := degrade (health s),
                       page_toasts := page_toasts s @ [ConnectionError]\<rparr>)"

text \<open>
  The one-shot poll of \<^verbatim>\<open>handleSettingsUpdate\<close> (page.tsx 103-114): its \<^verbatim>\<open>catch\<close>
  block only logs.
\<close>

definition refreshHealth :: "string + health_status \<Rightarrow> int \<Rightarrow> console_state \<Rightarrow> console_state" where
  "refreshHealth outcome now s =
     (case outcome of
        Inr healthData \<Rightarrow> s\<lparr>health := Some healthData, lastHealthUpdate := Some now\<rparr>
      | Inl err \<Rightarrow> s)"

text \<open>\<^verbatim>\<open>handleDetection\<close> (page.tsx 81-83): \<^verbatim>\<open>[event, ...prev].slice(0, 50)\<close>.\<close>

definition handleDetection :: "detection_event \<Rightarrow> console_state \<Rightarrow> console_state" where
  "handleDetection event s = s\<lparr>detectionEvents := take 50 (event # detectionEvents s)\<rparr>"

text \<open>The store after the events \<open>es\<close> have arrived in this order.\<close>

definition append_all :: "detection_event list \<Rightarrow> console_state \<Rightarrow> console_state" where
  "append_all es s = foldl (\<lambda>st e. handleDetection e st) s es"


section \<open>Filtering the store (src/components/detections-list.tsx)\<close>

text \<open>\<^verbatim>\<open>Array.prototype.some\<close>: true at the first element that satisfies the test.\<close>

fun some :: "('a \<Rightarrow> bool) \<Rightarrow> 'a list \<Rightarrow> bool" where
  "some p [] = False"
| "some p (x # xs) = (if p x then True else some p xs)"

text \<open>
  The callback of \<^verbatim>\<open>detections.filter\<close> (lines 35-39) and the filter itself (line 35).
  \<open>filterLabel\<close> and \<open>minConfidence\<close> are the component's state; \<^verbatim>\<open>filter\<close> builds a
  new array and leaves \<open>detections\<close> as it is.
\<close>

definition keeps :: "string \<Rightarrow> real \<Rightarrow> detection_event \<Rightarrow> bool" where
  "keeps filterLabel minConfidence event =
     (let hasMatchingLabel =
            (filterLabel = ''all'' \<or> some (\<lambda>d. label d = filterLabel) (detections event));
          hasMinConfidence =
            some (\<lambda>d. confidence d \<ge> minConfidence / 100) (detections event)
      in hasMatchingLabel \<and> hasMinConfidence)"

fun filteredDetections :: "detection_event list \<Rightarrow> string \<Rightarrow> real \<Rightarrow> detection_event list" where
  "filteredDetections [] filterLabel minConfidence = []"
| "filteredDetections (event # rest) filterLabel minConfidence =
     (if keeps filterLabel minConfidence event
      then event # filteredDetections rest filterLabel minConfidence
      else filteredDetections rest filterLabel minConfidence)"


section \<open>The overlay renderer (LiveView, \<^verbatim>\<open>drawBoundingBoxes\<close>, lines 41-79)\<close>











section \<open>The telemetry aggregator (LiveView, \<^verbatim>\<open>processFrame\<close>, lines 106-141)\<close>

text \<open>Lines 107-110: \<^verbatim>\<open>push(latency)\<close>, then one \<^verbatim>\<open>shift()\<close> if the length exceeds 60.\<close>

definition pushLatency :: "int \<Rightarrow> int list \<Rightarrow> int list" where
  "pushLatency latency hist =
     (let pushed = hist @ [latency]
      in if length pushed > 60 then tl pushed else pushed)"

text \<open>Lines 116-120: the entries are \<^verbatim>\<open>{timestamp, count}\<close>.\<close>

definition pushDetections :: "int \<Rightarrow> nat \<Rightarrow> (int \<times> nat) list \<Rightarrow> (int \<times> nat) list" where
  "pushDetections now count hist =
     filter (\<lambda>entry. now - fst entry < 60000) (hist @ [(now, count)])"

text \<open>
  \<^verbatim>\<open>Math.floor(sortedLatencies.length * 0.95)\<close> (line 129), in exact arithmetic. The
  double nearest to \<open>0.95\<close> is smaller than \<open>0.95\<close> by less than half a unit in the last
  place, so the rounded product is the integer \<open>0.95 * n\<close> whenever that is an integer
  and lies strictly between the same two integers otherwise.
\<close>

definition p95Index :: "nat \<Rightarrow> nat" where
  "p95Index n = nat \<lfloor>real n * 0.95\<rfloor>"

text \<open>\<^verbatim>\<open>xs[i] || 0\<close>: \<^verbatim>\<open>undefined\<close> (index out of range) and \<open>0\<close> are falsy.\<close>

definition index_or_zero :: "int list \<Rightarrow> nat \<Rightarrow> int" where
  "index_or_zero xs i =
     (if i < length xs then (if xs ! i = 0 then 0 else xs ! i) else 0)"

text \<open>
  Lines 127-141: the snapshot handed to \<^verbatim>\<open>onStatsUpdate\<close>. \<^verbatim>\<open>reduce((a, b) => a + b, 0)\<close>
  is a left fold; \<^verbatim>\<open>sort((a, b) => a - b)\<close> sorts a copy in ascending order.
\<close>

definition calcStats :: "int list \<Rightarrow> (int \<times> nat) list \<Rightarrow> nat \<Rightarrow> session_stats" where
  "calcStats latencies dets frames =
     (let avg = js_div (real_of_int (foldl (\<lambda>a b. a + b) 0 latencies)) (real (length latencies));
          sortedLatencies = sort latencies;
          p95 = index_or_zero sortedLatencies (p95Index (length sortedLatencies));
          detectionsInLastMin = foldl (\<lambda>sum entry. sum + snd entry) 0 dets
      in \<lparr>avgLatency = avg, p95Latency = p95, detectionsPerMin = detectionsInLastMin,
          totalFrames = frames, latencyHistory = latencies\<rparr>)"


section \<open>The streaming component (LiveView: \<^verbatim>\<open>processFrame\<close>, \<^verbatim>\<open>startStream\<close>, \<^verbatim>\<open>stopStream\<close>)\<close>

text \<open>
  A callback created during a render closes over the values of that render. The interval
  callback of \<^verbatim>\<open>startStream\<close> (lines 215-219) reads \<^verbatim>\<open>isProcessing\<close> and calls
  \<^verbatim>\<open>processFrame\<close>, which reads \<^verbatim>\<open>isModelLoaded\<close>; a timer therefore carries the two
  values its creating render had, together with its period \<^verbatim>\<open>1000 / fps\<close>.
\<close>

record timer =
  cap_isProcessing :: bool
  cap_isModelLoaded :: bool
  interval :: jsnum

text \<open>The five clock and random reads of one successful cycle (lines 102, 116, 124, 180, 181).\<close>

record clock =
  endTime :: int
  now_ms :: int
  frameDate :: int
  newEventId :: string
  eventDate :: int

text \<open>
  The component's state. \<open>isModelLoaded\<close> is a prop. \<open>isStreaming\<close>, \<open>showOverlay\<close>,
  \<open>stream_fps\<close> and \<open>isProcessing\<close> are the \<^verbatim>\<open>useState\<close> values of the last committed
  render, the ones closures see; the \<open>set_\<close> fields hold what the setters have queued
  for the next render. \<open>currentLatency\<close> and \<open>detectionCount\<close> are only displayed. The
  \<open>Ref\<close> fields are the \<^verbatim>\<open>useRef\<close> cells, written at once. \<open>timers\<close> are the
  intervals that are set and not cleared, by handle, in creation order (handles are
  positive, so a held handle is truthy). \<open>pending\<close> holds the \<^verbatim>\<open>startTime\<close> of each
  \<^verbatim>\<open>api.runInference\<close> call that has not settled yet, \<open>inferCalls\<close> counts the calls
  issued, \<open>canvas_mounted\<close> says that \<^verbatim>\<open>canvasRef\<close> holds a canvas with a 2D context,
  \<open>image_loads\<close> holds the images whose \<^verbatim>\<open>src\<close> was set (line 173) with the detections
  their \<^verbatim>\<open>onload\<close> will draw, and the \<open>on\<dots>_calls\<close> fields log the arguments passed
  to the three callback props.
\<close>

record live_view =
  isModelLoaded :: bool
  isStreaming :: bool
  showOverlay :: bool
  stream_fps :: nat
  isProcessing :: bool
  set_isStreaming :: bool
  set_showOverlay :: bool
  set_fps :: nat
  set_isProcessing :: bool
  currentLatency :: int
  detectionCount :: nat
  streamIntervalRef :: "nat option"
  latencyHistoryRef :: "int list"
  detectionHistoryRef :: "(int \<times> nat) list"
  frameCountRef :: nat
  canvas_mounted :: bool
  timers :: "(nat \<times> timer) list"
  next_handle :: nat
  pending :: "int list"
  inferCalls :: nat
  image_loads :: "(string \<times> bounding_box list) list"
  toasts :: "toast list"
  onStatsUpdate_calls :: "session_stats list"
  onDetection_calls :: "detection_event list"
  onFrameUpdate_calls :: "int list"

definition initial_view :: "bool \<Rightarrow> live_view" where
  "initial_view modelLoaded =
     \<lparr>isModelLoaded = modelLoaded, isStreaming = False, showOverlay = True, stream_fps = 2,
      isProcessing = False, set_isStreaming = False, set_showOverlay = True, set_fps = 2,
      set_isProcessing = False, currentLatency = 0, detectionCount = 0,
      streamIntervalRef = None, latencyHistoryRef = [], detectionHistoryRef = [],
      frameCountRef = 0, canvas_mounted = True, timers = [], next_handle = 1, pending = [],
      inferCalls = 0, image_loads = [], toasts = [], onStatsUpdate_calls = [],
      onDetection_calls = [], onFrameUpdate_calls = []\<rparr>"

text \<open>
  \<^verbatim>\<open>processFrame\<close> up to its \<^verbatim>\<open>await\<close> (lines 83-100). \<open>modelLoaded\<close> is the
  \<^verbatim>\<open>isModelLoaded\<close> the called closure holds, \<open>startTime\<close> the clock read of line 93.
  The request's fields do not influence the component and are left out.
\<close>

definition processFrame_call :: "bool \<Rightarrow> int \<Rightarrow> live_view \<Rightarrow> live_view" where
  "processFrame_call modelLoaded startTime s =
     (if \<not> modelLoaded then s\<lparr>toasts := toasts s @ [ModelNotLoaded]\<rparr>
      else s\<lparr>set_isProcessing := True,
             pending := pending s @ [startTime],
             inferCalls := inferCalls s + 1\<rparr>)"

text \<open>Lines 102-187: the \<^verbatim>\<open>try\<close> block after the promise has resolved with \<open>response\<close>.\<close>

definition on_response :: "int \<Rightarrow> inference_response \<Rightarrow> clock \<Rightarrow> live_view \<Rightarrow> live_view" where
  "on_response startTime response clk s =
     (let latency = endTime clk - startTime;
          dets = resp_detections response;
          lat = pushLatency latency (latencyHistoryRef s);
          dh = pushDetections (now_ms clk) (length dets) (detectionHistoryRef s);
          frames = frameCountRef s + 1;
          s1 = s\<lparr>currentLatency := latency,
                 latencyHistoryRef := lat,
                 detectionCount := length dets,
                 detectionHistoryRef := dh,
                 frameCountRef := frames,
                 onFrameUpdate_calls := onFrameUpdate_calls s @ [frameDate clk],
                 onStatsUpdate_calls := onStatsUpdate_calls s @ [calcStats lat dh frames]\<rparr>;
          s2 = (case encoded_image response of
                  Some img \<Rightarrow>
                    if img \<noteq> [] \<and> canvas_mounted s1
                    then s1\<lparr>image_loads := image_loads s1 @ [(img, dets)]\<rparr> else s1
                | None \<Rightarrow> s1)
      in if length dets > 0
         then s2\<lparr>onDetection_calls := onDetection_calls s2 @
                   [\<lparr>event_id = newEventId clk, timestamp = eventDate clk, detections = dets,
                     thumbnail = encoded_image response, metadata = resp_metadata response\<rparr>]\<rparr>
         else s2)"

text \<open>
  The rest of \<^verbatim>\<open>processFrame\<close>, run when the \<open>k\<close>-th pending call settles: the
  \<^verbatim>\<open>try\<close> block on \<open>Inr response\<close>, the \<^verbatim>\<open>catch\<close> block (lines 188-194) on
  \<open>Inl error\<close>, and the \<^verbatim>\<open>finally\<close> block (line 196) on both. The toast of the
  \<^verbatim>\<open>catch\<close> block shows \<^verbatim>\<open>error.message\<close> for an \<^verbatim>\<open>Error\<close> and a fixed text otherwise.
\<close>

definition failure_text :: "rejection \<Rightarrow> string" where
  "failure_text error =
     (case error of ErrorObject message \<Rightarrow> message | OtherValue \<Rightarrow> ''Unknown error occurred'')"

definition processFrame_settle ::
  "nat \<Rightarrow> rejection + inference_response \<Rightarrow> clock \<Rightarrow> live_view \<Rightarrow> live_view" where
  "processFrame_settle k outcome clk s =
     (if k < length (pending s) then
        let startTime = pending s ! k;
            s0 = s\<lparr>pending := take k (pending s) @ drop (Suc k) (pending s)\<rparr>;
            s1 = (case outcome of
                    Inr response \<Rightarrow> on_response startTime response clk s0
                  | Inl error \<Rightarrow>
                      s0\<lparr>toasts := toasts s0 @ [InferenceFailed (failure_text error)]\<rparr>)
        in s1\<lparr>set_isProcessing := False\<rparr>
      else s)"

text \<open>\<^verbatim>\<open>startStream\<close> (lines 202-220) and \<^verbatim>\<open>stopStream\<close> (lines 222-228).\<close>

definition startStream :: "live_view \<Rightarrow> live_view" where
  "startStream s =
     (if \<not> isModelLoaded s then s\<lparr>toasts := toasts s @ [ModelNotLoaded]\<rparr>
      else
        let h = next_handle s;
            t = \<lparr>cap_isProcessing = isProcessing s, cap_isModelLoaded = isModelLoaded s,
                 interval = js_div 1000 (real (stream_fps s))\<rparr>
        in s\<lparr>set_isStreaming := True,
              streamIntervalRef := Some h,
              timers := timers s @ [(h, t)],
              next_handle := h + 1\<rparr>)"

definition clearInterval :: "nat \<Rightarrow> (nat \<times> timer) list \<Rightarrow> (nat \<times> timer) list" where
  "clearInterval h ts = filter (\<lambda>entry. fst entry \<noteq> h) ts"

definition stopStream :: "live_view \<Rightarrow> live_view" where
  "stopStream s =
     (let s1 = s\<lparr>set_isStreaming := False\<rparr>
      in case streamIntervalRef s1 of
           Some h \<Rightarrow> s1\<lparr>timers := clearInterval h (timers s1), streamIntervalRef := None\<rparr>
         | None \<Rightarrow> s1)"

text \<open>One firing of a timer's callback (lines 215-219), and of every timer that is set.\<close>

definition fire :: "int \<Rightarrow> live_view \<Rightarrow> timer \<Rightarrow> live_view" where
  "fire startTime s t =
     (if \<not> cap_isProcessing t then processFrame_call (cap_isModelLoaded t) startTime s else s)"

definition tick :: "int \<Rightarrow> live_view \<Rightarrow> live_view" where
  "tick startTime s = foldl (fire startTime) s (map snd (timers s))"

text \<open>
  \<^verbatim>\<open>captureFrame\<close> (lines 230-232) and the \<^verbatim>\<open>reader.onload\<close> of
  \<^verbatim>\<open>handleImageUpload\<close> (lines 240-245). Both call the \<^verbatim>\<open>processFrame\<close> of the
  last render.
\<close>

definition captureFrame :: "int \<Rightarrow> live_view \<Rightarrow> live_view" where
  "captureFrame startTime s = processFrame_call (isModelLoaded s) startTime s"

definition handleImageUpload :: "int \<Rightarrow> live_view \<Rightarrow> live_view" where
  "handleImageUpload startTime s = processFrame_call (isModelLoaded s) startTime s"

text \<open>
  A render commits the queued state and the prop \<open>modelLoaded\<close>, then runs the effect
  of lines 270-275 if one of its dependencies changed. \<^verbatim>\<open>startStream\<close> is rebuilt
  when \<^verbatim>\<open>fps\<close>, \<^verbatim>\<open>isModelLoaded\<close>, \<^verbatim>\<open>isProcessing\<close> or \<^verbatim>\<open>processFrame\<close> changes,
  \<^verbatim>\<open>processFrame\<close> when \<^verbatim>\<open>isModelLoaded\<close>, \<^verbatim>\<open>drawBoundingBoxes\<close> (that is
  \<^verbatim>\<open>showOverlay\<close>) or a callback prop changes; \<open>propsChanged\<close> says that the parent
  passed a new \<^verbatim>\<open>api\<close> or callback.
\<close>

definition settled :: "live_view \<Rightarrow> bool" where
  "settled s \<longleftrightarrow>
     set_isStreaming s = isStreaming s \<and> set_showOverlay s = showOverlay s
     \<and> set_fps s = stream_fps s \<and> set_isProcessing s = isProcessing s"

definition commit :: "bool \<Rightarrow> live_view \<Rightarrow> live_view" where
  "commit modelLoaded s =
     s\<lparr>isModelLoaded := modelLoaded,
       isStreaming := set_isStreaming s,
       showOverlay := set_showOverlay s,
       stream_fps := set_fps s,
       isProcessing := set_isProcessing s\<rparr>"

definition render :: "bool \<Rightarrow> bool \<Rightarrow> live_view \<Rightarrow> live_view" where
  "render modelLoaded propsChanged s =
     (let changed = (propsChanged \<or> modelLoaded \<noteq> isModelLoaded s \<or> \<not> settled s);
          s1 = commit modelLoaded s
      in if changed \<and> isStreaming s1 then startStream (stopStream s1) else s1)"

text \<open>
  React renders again while a commit leaves queued state behind. The effect queues
  \<^verbatim>\<open>isStreaming\<close> only, so the second render is the last.
\<close>

definition flush :: "bool \<Rightarrow> bool \<Rightarrow> live_view \<Rightarrow> live_view" where
  "flush modelLoaded propsChanged s =
     (let s1 = render modelLoaded propsChanged s in render modelLoaded False s1)"

text \<open>
  What happens to a mounted component: the Start and Stop buttons (only one of which
  is rendered, lines 291-301, Start being disabled while the model is not loaded), the
  Capture button (disabled when \<^verbatim>\<open>!isModelLoaded || isProcessing\<close>, line 306), the
  overlay toggle, the FPS selector, the file input of the upload (never disabled), a
  tick of the interval clock, the settlement of a pending inference, and a render by
  the parent. Timer ticks are at least 250 ms apart, and React finishes the renders
  an event has queued before the next event is handled.
\<close>

datatype event =
    ClickStart
  | ClickStop
  | ClickCapture int
  | ToggleOverlay
  | SelectFps nat
  | Upload int
  | Tick int
  | Settle nat "rejection + inference_response" clock
  | ParentRender bool

fun handle :: "event \<Rightarrow> live_view \<Rightarrow> live_view" where
  "handle ClickStart s = (if \<not> isStreaming s \<and> isModelLoaded s then startStream s else s)"
| "handle ClickStop s = (if isStreaming s then stopStream s else s)"
| "handle (ClickCapture startTime) s =
     (if \<not> isModelLoaded s \<or> isProcessing s then s else captureFrame startTime s)"
| "handle ToggleOverlay s = s\<lparr>set_showOverlay := \<not> showOverlay s\<rparr>"
| "handle (SelectFps v) s = s\<lparr>set_fps := v\<rparr>"
| "handle (Upload startTime) s = handleImageUpload startTime s"
| "handle (Tick startTime) s = tick startTime s"
| "handle (Settle k outcome clk) s = processFrame_settle k outcome clk s"
| "handle (ParentRender modelLoaded) s = s"

fun step :: "live_view \<Rightarrow> event \<Rightarrow> live_view" where
  "step s (ParentRender modelLoaded) = flush modelLoaded True s"
| "step s e = flush (isModelLoaded s) False (handle e s)"

text \<open>The events that reach \<^verbatim>\<open>processFrame\<close> behind a test of \<^verbatim>\<open>isProcessing\<close>, or not at all.\<close>

fun guarded :: "event \<Rightarrow> bool" where
  "guarded (Upload startTime) = False"
| "guarded e = True"

definition run :: "event list \<Rightarrow> live_view \<Rightarrow> live_view" where
  "run evs s = foldl step s evs"

text \<open>A session of successful cycles: each is a start time, a response and its clock reads.\<close>

definition run_cycles :: "(int \<times> inference_response \<times> clock) list \<Rightarrow> live_view \<Rightarrow> live_view" where
  "run_cycles cs s = foldl (\<lambda>st c. on_response (fst c) (fst (snd c)) (snd (snd c)) st) s cs"

definition latency_of :: "int \<times> inference_response \<times> clock \<Rightarrow> int" where
  "latency_of c = endTime (snd (snd c)) - fst c"




section \<open>Invariants of the streaming component\<close>

text \<open>
  Between events the component has no queued state, and it holds exactly the timer
  its \<^verbatim>\<open>streamIntervalRef\<close> names, created by the last committed render, while it
  streams and no timer otherwise.
\<close>

definition current_timer :: "live_view \<Rightarrow> timer" where
  "current_timer s =
     \<lparr>cap_isProcessing = isProcessing s, cap_isModelLoaded = True,
      interval = js_div 1000 (real (stream_fps s))\<rparr>"

definition single_timer :: "live_view \<Rightarrow> bool" where
  "single_timer s =
     (case streamIntervalRef s of
        None \<Rightarrow> timers s = [] \<and> \<not> isStreaming s
      | Some h \<Rightarrow> timers s = [(h, current_timer s)] \<and> isStreaming s \<and> isModelLoaded s)"

definition timers_inv :: "live_view \<Rightarrow> bool" where
  "timers_inv s \<longleftrightarrow> settled s \<and> single_timer s"

text \<open>At most one inference is pending, and \<^verbatim>\<open>isProcessing\<close> says whether one is.\<close>

definition one_in_flight :: "live_view \<Rightarrow> bool" where
  "one_in_flight s \<longleftrightarrow> length (pending s) \<le> 1 \<and> (isProcessing s \<longleftrightarrow> pending s \<noteq> [])"

text \<open>What holds after an event handler has run and before React renders.\<close>

definition timer_ok :: "live_view \<Rightarrow> bool" where
  "timer_ok s =
     (case streamIntervalRef s of
        None \<Rightarrow> timers s = []
      | Some h \<Rightarrow> map fst (timers s) = [h])"

definition ready :: "live_view \<Rightarrow> bool" where
  "ready s \<longleftrightarrow> timer_ok s \<and> (set_isStreaming s \<longleftrightarrow> streamIntervalRef s \<noteq> None)"

definition flight_ready :: "live_view \<Rightarrow> bool" where
  "flight_ready s \<longleftrightarrow>
     length (pending s) \<le> 1 \<and> (set_isProcessing s \<longleftrightarrow> pending s \<noteq> [])"




section \<open>Example data\<close>

definition example_box :: "string \<Rightarrow> real \<Rightarrow> bounding_box" where
  "example_box l c = \<lparr>label = l, confidence = c, x_min = 0, y_min = 0, x_max = 100, y_max = 50\<rparr>"

definition example_metadata :: response_metadata where
  "example_metadata =
     \<lparr>model_path = Some ''/models/yolo11n.pt'', detection_count = 1, inference_ms = 80,
      meta_note = None\<rparr>"

definition example_event :: "string \<Rightarrow> bounding_box list \<Rightarrow> detection_event" where
  "example_event i boxes =
     \<lparr>event_id = i, timestamp = 0, detections = boxes, thumbnail = None,
      metadata = example_metadata\<rparr>"

definition example_response :: "bounding_box list \<Rightarrow> inference_response" where
  "example_response boxes =
     \<lparr>resp_detections = boxes, resp_metadata = example_metadata, encoded_image = None\<rparr>"

definition example_clock :: "int \<Rightarrow> clock" where
  "example_clock t =
     \<lparr>endTime = t, now_ms = t, frameDate = t, newEventId = ''e'', eventDate = t\<rparr>"

definition example_health :: health_status where
  "example_health =
     \<lparr>status = Ok,
      camera = \<lparr>available = True, using_mock = True, width = 640, height = 480, fps = 2\<rparr>,
      model = \<lparr>loaded = True, path = Some ''/models/yolo11n.pt'', autoload = Some True\<rparr>\<rparr>"


section \<open>The detection event store\<close>

lemma append_all_events:
  assumes "length (detectionEvents s) \<le> 50"
  shows "detectionEvents (append_all es s) = take 50 (rev es @ detectionEvents s)"
  using assms
proof (induction es arbitrary: s)
  case Nil
  then show ?case by (simp add: append_all_def)
next
  case (Cons e es)
  have "detectionEvents (append_all (e # es) s) =
          detectionEvents (append_all es (handleDetection e s))"
    by (simp add: append_all_def)
  also have "\<dots> = take 50 (rev es @ detectionEvents (handleDetection e s))"
    by (rule Cons.IH) (simp add: handleDetection_def)
  also have "\<dots> = take 50 (rev es @ take 50 (e # detectionEvents s))"
    by (simp add: handleDetection_def)
  also have "\<dots> = take 50 (rev (e # es) @ detectionEvents s)"
    using Cons.prems by (simp add: take_Cons' min_def)
  finally show ?case .
qed

text \<open>
  C3. The store never holds more than 50 events. A new event is put in front of the
  ones already held, which keep their order; when 50 are held the last one, which is
  the oldest by insertion, is dropped. After the events \<open>es\<close> have arrived at an empty
  store it holds the 50 most recent of them, most recent first.
\<close>

theorem store_bounded:
  "length (detectionEvents (handleDetection e s)) \<le> 50
   \<and> detectionEvents (handleDetection e s) = e # take 49 (detectionEvents s)
   \<and> (length (detectionEvents s) = 50 \<longrightarrow>
        detectionEvents (handleDetection e s) = e # butlast (detectionEvents s))
   \<and> detectionEvents (append_all es initial_console) = take 50 (rev es)"
proof -
  have "length (detectionEvents s) = 50 \<Longrightarrow>
          take 49 (detectionEvents s) = butlast (detectionEvents s)"
    by (simp add: butlast_conv_take)
  moreover have "detectionEvents (append_all es initial_console) = take 50 (rev es)"
    using append_all_events [of initial_console es] by (simp add: initial_console_def)
  ultimately show ?thesis
    by (simp add: handleDetection_def take_Cons')
qed

theorem store_bounded_witness:
  "length (detectionEvents (initial_console\<lparr>detectionEvents := replicate 50 (example_event ''old'' [])\<rparr>)) = 50
   \<and> detectionEvents (handleDetection (example_event ''new'' [])
        (initial_console\<lparr>detectionEvents := replicate 50 (example_event ''old'' [])\<rparr>))
      = example_event ''new'' [] # replicate 49 (example_event ''old'' [])"
  using store_bounded [of "example_event ''new'' []"
      "initial_console\<lparr>detectionEvents := replicate 50 (example_event ''old'' [])\<rparr>" "[]"]
  by (simp add: butlast_conv_take)


section \<open>Filtering\<close>

lemma some_iff: "some p xs \<longleftrightarrow> (\<exists>x\<in>set xs. p x)"
  by (induction xs) auto

lemma keeps_iff:
  "keeps filterLabel minConfidence e \<longleftrightarrow>
     (filterLabel = ''all'' \<or> (\<exists>d\<in>set (detections e). label d = filterLabel)) \<and>
     (\<exists>d\<in>set (detections e). confidence d \<ge> minConfidence / 100)"
  by (simp add: keeps_def some_iff)

lemma filteredDetections_filter:
  "filteredDetections ds filterLabel minConfidence = filter (keeps filterLabel minConfidence) ds"
  by (induction ds) auto

text \<open>
  C6. The filter returns, in their order, exactly the events that have a box with the
  filter's label (any event when the filter is \<open>all\<close>) and a box, not necessarily the
  same, whose confidence is at least the percentage over 100. It computes a new list;
  the store it reads is a value and stays as it was. On the events with the boxes
  (car, 0.9), (dog, 0.4) and (car, 0.3) the filter for \<open>car\<close> at 50 percent returns the
  first event only.
\<close>

theorem filter_exact:
  "filteredDetections ds filterLabel minConfidence =
     filter (\<lambda>event.
        (filterLabel = ''all'' \<or> (\<exists>d\<in>set (detections event). label d = filterLabel))
        \<and> (\<exists>d\<in>set (detections event). confidence d \<ge> minConfidence / 100)) ds
   \<and> filteredDetections
        [example_event ''1'' [example_box ''car'' 0.9],
         example_event ''2'' [example_box ''dog'' 0.4],
         example_event ''3'' [example_box ''car'' 0.3]] ''car'' 50
     = [example_event ''1'' [example_box ''car'' 0.9]]"
proof -
  have "filteredDetections ds filterLabel minConfidence =
     filter (\<lambda>event.
        (filterLabel = ''all'' \<or> (\<exists>d\<in>set (detections event). label d = filterLabel))
        \<and> (\<exists>d\<in>set (detections event). confidence d \<ge> minConfidence / 100)) ds"
    unfolding filteredDetections_filter by (rule filter_cong) (simp_all add: keeps_iff)
  moreover have "filteredDetections
        [example_event ''1'' [example_box ''car'' 0.9],
         example_event ''2'' [example_box ''dog'' 0.4],
         example_event ''3'' [example_box ''car'' 0.3]] ''car'' 50
     = [example_event ''1'' [example_box ''car'' 0.9]]"
    by (simp add: keeps_def example_event_def example_box_def)
  ultimately show ?thesis by blast
qed

theorem filter_exact_witness:
  "filteredDetections
     [example_event ''1'' [example_box ''dog'' 0.4, example_box ''cat'' 0.8],
      example_event ''2'' [example_box ''dog'' 0.2]] ''dog'' 60
   = [example_event ''1'' [example_box ''dog'' 0.4, example_box ''cat'' 0.8]]"
  using filter_exact [of
     "[example_event ''1'' [example_box ''dog'' 0.4, example_box ''cat'' 0.8],
       example_event ''2'' [example_box ''dog'' 0.2]]" "''dog''" 60]
  by (simp add: example_event_def example_box_def)


section \<open>Health polling\<close>

text \<open>
  C9. When a poll fails while a status is held, the held status becomes one whose
  \<open>status\<close> is \<open>degraded\<close> and whose camera and model parts, with all their fields, are
  the ones last fetched. Whatever the outcome of a poll, or of the refresh after a
  settings change, a held status is never replaced by none.
\<close>

theorem health_degraded:
  "health s = Some h \<Longrightarrow>
     health (pollHealth (Inl err) now s) = Some (h\<lparr>status := Degraded\<rparr>)
     \<and> (\<exists>h'. health (pollHealth (Inl err) now s) = Some h'
          \<and> status h' = Degraded
          \<and> available (camera h') = available (camera h)
          \<and> using_mock (camera h') = using_mock (camera h)
          \<and> width (camera h') = width (camera h)
          \<and> height (camera h') = height (camera h)
          \<and> fps (camera h') = fps (camera h)
          \<and> loaded (model h') = loaded (model h)
          \<and> path (model h') = path (model h)
          \<and> autoload (model h') = autoload (model h))
     \<and> health (pollHealth outcome now s) \<noteq> None
     \<and> health (refreshHealth outcome now s) \<noteq> None"
  by (cases outcome) (simp_all add: pollHealth_def refreshHealth_def degrade_def)

theorem health_degraded_witness:
  "health (initial_console\<lparr>health := Some example_health\<rparr>) = Some example_health
   \<and> health (pollHealth (Inl ''timeout'') 5000 (initial_console\<lparr>health := Some example_health\<rparr>))
       = Some (example_health\<lparr>status := Degraded\<rparr>)"
  using health_degraded [of "initial_console\<lparr>health := Some example_health\<rparr>" example_health
      "''timeout''" 5000 "Inl ''timeout''"]
  by simp

text \<open>
  C10. When a poll fails while no status is held, none is held afterwards either: no
  placeholder is made up. The next poll that succeeds installs what it fetched.
\<close>

theorem health_absent:
  "health s = None \<Longrightarrow>
     health (pollHealth (Inl err) now s) = None
     \<and> health (pollHealth (Inr h) later (pollHealth (Inl err) now s)) = Some h"
  by (simp add: pollHealth_def degrade_def)

theorem health_absent_witness:
  "health initial_console = None
   \<and> health (pollHealth (Inl ''timeout'') 0 initial_console) = None
   \<and> health (pollHealth (Inr example_health) 5000 (pollHealth (Inl ''timeout'') 0 initial_console))
       = Some example_health"
proof -
  have none: "health initial_console = None" by (simp add: initial_console_def)
  show ?thesis
    using none health_absent [OF none, of "''timeout''" 0 example_health 5000] by simp
qed

section \<open>The latency window\<close>

lemma foldl_plus_sum_list: "foldl (\<lambda>a b. a + b) a xs = a + sum_list (xs::int list)"
  by (induction xs arbitrary: a) simp_all

lemma pushLatency_short: "length hist < 60 \<Longrightarrow> pushLatency l hist = hist @ [l]"
  by (simp add: pushLatency_def Let_def)

lemma pushLatency_full: "length hist = 60 \<Longrightarrow> pushLatency l hist = tl hist @ [l]"
  by (cases hist) (auto simp: pushLatency_def Let_def)

lemma pushLatency_length: "length hist \<le> 60 \<Longrightarrow> length (pushLatency l hist) \<le> 60"
  by (simp add: pushLatency_def Let_def)


lemma pushLatency_all:
  "length hist \<le> 60 \<Longrightarrow>
     foldl (\<lambda>h l. pushLatency l h) hist ls = drop (length hist + length ls - 60) (hist @ ls)"
proof (induction ls arbitrary: hist)
  case Nil
  then show ?case by simp
next
  case (Cons l ls)
  have len: "length (pushLatency l hist) \<le> 60"
    using Cons.prems by (rule pushLatency_length)
  have unfolded: "foldl (\<lambda>h l. pushLatency l h) hist (l # ls)
          = drop (length (pushLatency l hist) + length ls - 60) (pushLatency l hist @ ls)"
    using Cons.IH [OF len] by simp
  show ?case
  proof (cases "length hist < 60")
    case True
    then show ?thesis using unfolded by (simp add: pushLatency_short)
  next
    case False
    with Cons.prems have full: "length hist = 60" by simp
    then have "hist \<noteq> []" by auto
    then have "drop (Suc (length ls)) (hist @ l # ls) = drop (length ls) (tl hist @ l # ls)"
      by (cases hist) simp_all
    then show ?thesis using unfolded full by (simp add: pushLatency_full)
  qed
qed

lemma on_response_latency:
  "latencyHistoryRef (on_response st r c s) = pushLatency (endTime c - st) (latencyHistoryRef s)"
  by (simp add: on_response_def Let_def split: option.split)

lemma on_response_stats:
  "onStatsUpdate_calls (on_response st r c s) =
     onStatsUpdate_calls s @
       [calcStats (pushLatency (endTime c - st) (latencyHistoryRef s))
          (pushDetections (now_ms c) (length (resp_detections r)) (detectionHistoryRef s))
          (frameCountRef s + 1)]"
  by (simp add: on_response_def Let_def split: option.split)

lemma on_response_last_stats:
  "\<exists>dh n. last (onStatsUpdate_calls (on_response st r c s)) =
     calcStats (latencyHistoryRef (on_response st r c s)) dh n"
  unfolding on_response_stats on_response_latency by (simp, blast)

lemma run_cycles_snoc:
  "run_cycles (cs @ [c]) s = on_response (fst c) (fst (snd c)) (snd (snd c)) (run_cycles cs s)"
  by (simp add: run_cycles_def)

lemma run_cycles_latency:
  "latencyHistoryRef (run_cycles cs s) =
     foldl (\<lambda>h l. pushLatency l h) (latencyHistoryRef s) (map latency_of cs)"
proof (induction cs rule: rev_induct)
  case Nil
  show ?case by (simp add: run_cycles_def)
next
  case (snoc c cs)
  then show ?case by (simp add: run_cycles_snoc on_response_latency latency_of_def)
qed

lemma run_cycles_last_stats:
  assumes "cs \<noteq> []"
  shows "\<exists>dh n. last (onStatsUpdate_calls (run_cycles cs s)) =
      calcStats (latencyHistoryRef (run_cycles cs s)) dh n"
proof -
  obtain cs' c where "cs = cs' @ [c]"
    using assms by (cases cs rule: rev_cases) auto
  then show ?thesis
    using on_response_last_stats [of "fst c" "fst (snd c)" "snd (snd c)" "run_cycles cs' s"]
    by (simp add: run_cycles_snoc)
qed

lemma calcStats_avg:
  "avgLatency (calcStats lat dh n) = js_div (real_of_int (sum_list lat)) (real (length lat))"
  by (simp add: calcStats_def Let_def foldl_plus_sum_list)


text \<open>
  C1. After a session of successful cycles, the latency buffer holds the last 60 of the
  recorded samples (all of them while there are fewer), so never more than 60, and the
  \<open>avgLatency\<close> reported last is the arithmetic mean of the buffer. Recording into a
  buffer of 60 drops its first, oldest, sample and appends the new one.
\<close>

theorem latency_window:
  assumes "cs \<noteq> []"
  shows "latencyHistoryRef (run_cycles cs (initial_view ml)) =
           drop (length cs - 60) (map latency_of cs)
       \<and> length (latencyHistoryRef (run_cycles cs (initial_view ml))) \<le> 60
       \<and> avgLatency (last (onStatsUpdate_calls (run_cycles cs (initial_view ml)))) =
           Num (real_of_int (sum_list (drop (length cs - 60) (map latency_of cs)))
                / real (length (drop (length cs - 60) (map latency_of cs))))
       \<and> (length hist = 60 \<longrightarrow> pushLatency l hist = tl hist @ [l])"
proof -
  let ?s = "run_cycles cs (initial_view ml)"
  let ?w = "drop (length cs - 60) (map latency_of cs)"
  have buf: "latencyHistoryRef ?s = ?w"
    using pushLatency_all [of "[]" "map latency_of cs"]
    by (simp add: run_cycles_latency initial_view_def)
  have ne: "?w \<noteq> []" using assms by (cases cs) auto
  obtain dh n where "last (onStatsUpdate_calls ?s) = calcStats (latencyHistoryRef ?s) dh n"
    using run_cycles_last_stats [OF assms] by blast
  then have avg: "avgLatency (last (onStatsUpdate_calls ?s)) =
      Num (real_of_int (sum_list ?w) / real (length ?w))"
    using ne by (simp add: calcStats_avg buf js_div_def)
  have evict: "length hist = 60 \<longrightarrow> pushLatency l hist = tl hist @ [l]"
    by (simp add: pushLatency_full)
  show ?thesis using buf avg evict by simp
qed

theorem latency_window_witness:
  "[(0, example_response [], example_clock 120), (500, example_response [], example_clock 580)] \<noteq> []
   \<and> latencyHistoryRef (run_cycles
        [(0, example_response [], example_clock 120),
         (500, example_response [], example_clock 580)] (initial_view True)) = [120, 80]
   \<and> avgLatency (last (onStatsUpdate_calls (run_cycles
        [(0, example_response [], example_clock 120),
         (500, example_response [], example_clock 580)] (initial_view True)))) = Num 100
   \<and> length (replicate 60 (5::int)) = 60
   \<and> pushLatency 7 (replicate 60 5) = replicate 59 5 @ [7]"
  using latency_window [of
      "[(0, example_response [], example_clock 120),
        (500, example_response [], example_clock 580)]" True "replicate 60 5" 7]
  by (simp add: latency_of_def example_clock_def)


section \<open>The snapshot\<close>

lemma p95Index_div: "p95Index n = n * 95 div 100"
proof -
  have "real n * 0.95 = real (n * 95) / real 100" by simp
  then have "\<lfloor>real n * 0.95\<rfloor> = int ((n * 95) div 100)"
    by (simp only: floor_divide_of_nat_eq)
  then show ?thesis by (simp add: p95Index_def)
qed

lemma p95Index_less: "0 < n \<Longrightarrow> p95Index n < n"
  by (simp add: p95Index_div)

lemma index_or_zero_nth: "i < length xs \<Longrightarrow> index_or_zero xs i = xs ! i"
  by (simp add: index_or_zero_def)

lemma calcStats_p95:
  "p95Latency (calcStats lat dh n) = index_or_zero (sort lat) (p95Index (length lat))"
  by (simp add: calcStats_def Let_def)

lemma floor_95: "nat \<lfloor>0.95 * real n\<rfloor> = p95Index n"
  by (simp add: p95Index_def mult.commute)

text \<open>
  C5. For a buffer that is not empty, \<open>p95Latency\<close> is the element of the ascending
  sort of the buffer at index \<open>floor (0.95 * length)\<close>. On the 60 values 10, 20, ..., 600
  that is index 57 and the value 580.
\<close>

theorem p95_nearest_rank:
  "(buf \<noteq> [] \<longrightarrow>
      p95Latency (calcStats buf dh n) = sort buf ! nat \<lfloor>0.95 * real (length buf)\<rfloor>)
   \<and> p95Latency (calcStats
        [10, 20, 30, 40, 50, 60, 70, 80, 90, 100, 110, 120, 130, 140, 150, 160, 170, 180,
         190, 200, 210, 220, 230, 240, 250, 260, 270, 280, 290, 300, 310, 320, 330, 340,
         350, 360, 370, 380, 390, 400, 410, 420, 430, 440, 450, 460, 470, 480, 490, 500,
         510, 520, 530, 540, 550, 560, 570, 580, 590, 600] dh n) = 580"
proof -
  have "buf \<noteq> [] \<Longrightarrow> p95Latency (calcStats buf dh n) = sort buf ! p95Index (length buf)"
    by (simp add: calcStats_p95 index_or_zero_nth p95Index_less)
  moreover have "p95Latency (calcStats
        [10, 20, 30, 40, 50, 60, 70, 80, 90, 100, 110, 120, 130, 140, 150, 160, 170, 180,
         190, 200, 210, 220, 230, 240, 250, 260, 270, 280, 290, 300, 310, 320, 330, 340,
         350, 360, 370, 380, 390, 400, 410, 420, 430, 440, 450, 460, 470, 480, 490, 500,
         510, 520, 530, 540, 550, 560, 570, 580, 590, 600] dh n) = 580"
    by (simp add: calcStats_p95 p95Index_div index_or_zero_def)
  ultimately show ?thesis unfolding floor_95 by blast
qed

theorem p95_nearest_rank_witness:
  "[30, 10, 20, 40] \<noteq> ([]::int list)
   \<and> sort [30, 10, 20, 40] ! nat \<lfloor>0.95 * real (length [30, 10, 20, 40::int])\<rfloor> = (40::int)
   \<and> p95Latency (calcStats [30, 10, 20, 40] [] 4) = 40"
proof -
  have idx: "nat \<lfloor>0.95 * real (length [30, 10, 20, 40::int])\<rfloor> = 3"
    unfolding floor_95 by (simp add: p95Index_div)
  show ?thesis
    using p95_nearest_rank [of "[30, 10, 20, 40]" "[]" 4] unfolding idx by simp
qed

section \<open>The overlay\<close>











section \<open>Starting the stream\<close>

lemma render_commit:
  "render ml pc s =
     (if (pc \<or> ml \<noteq> isModelLoaded s \<or> \<not> settled s) \<and> set_isStreaming s
      then startStream (stopStream (commit ml s)) else commit ml s)"
  by (simp add: render_def commit_def Let_def)

lemma commit_fields:
  "isModelLoaded (commit ml s) = ml"
  "isStreaming (commit ml s) = set_isStreaming s"
  "isProcessing (commit ml s) = set_isProcessing s"
  "stream_fps (commit ml s) = set_fps s"
  "showOverlay (commit ml s) = set_showOverlay s"
  "set_isStreaming (commit ml s) = set_isStreaming s"
  "set_isProcessing (commit ml s) = set_isProcessing s"
  "set_fps (commit ml s) = set_fps s"
  "set_showOverlay (commit ml s) = set_showOverlay s"
  "pending (commit ml s) = pending s"
  "inferCalls (commit ml s) = inferCalls s"
  "timers (commit ml s) = timers s"
  "streamIntervalRef (commit ml s) = streamIntervalRef s"
  "next_handle (commit ml s) = next_handle s"
  by (simp_all add: commit_def)

lemma restart_keeps:
  "isStreaming (startStream (stopStream s)) = isStreaming s
   \<and> isProcessing (startStream (stopStream s)) = isProcessing s
   \<and> set_isProcessing (startStream (stopStream s)) = set_isProcessing s
   \<and> showOverlay (startStream (stopStream s)) = showOverlay s
   \<and> set_showOverlay (startStream (stopStream s)) = set_showOverlay s
   \<and> stream_fps (startStream (stopStream s)) = stream_fps s
   \<and> set_fps (startStream (stopStream s)) = set_fps s
   \<and> isModelLoaded (startStream (stopStream s)) = isModelLoaded s
   \<and> pending (startStream (stopStream s)) = pending s
   \<and> inferCalls (startStream (stopStream s)) = inferCalls s"
  by (simp add: startStream_def stopStream_def Let_def split: option.splits)

lemma restart_set_isStreaming:
  "set_isStreaming (startStream (stopStream s)) = isModelLoaded s"
  by (simp add: startStream_def stopStream_def Let_def split: option.splits)

lemma render_isStreaming: "isStreaming (render ml pc s) = set_isStreaming s"
  by (simp add: render_commit restart_keeps commit_fields)

lemma render_isModelLoaded: "isModelLoaded (render ml pc s) = ml"
  by (simp add: render_commit restart_keeps commit_fields)

lemma render_set_isStreaming:
  "set_isStreaming (render ml pc s) =
     (if (pc \<or> ml \<noteq> isModelLoaded s \<or> \<not> settled s) \<and> set_isStreaming s then ml
      else set_isStreaming s)"
  by (simp add: render_commit restart_set_isStreaming commit_fields)

lemma flush_isStreaming:
  "isStreaming (flush ml pc s) =
     (set_isStreaming s \<and> (pc \<or> ml \<noteq> isModelLoaded s \<or> \<not> settled s \<longrightarrow> ml))"
  by (auto simp: flush_def Let_def render_isStreaming render_set_isStreaming)

lemma flush_isModelLoaded: "isModelLoaded (flush ml pc s) = ml"
  by (simp add: flush_def Let_def render_isModelLoaded)

lemma flush_keeps:
  "pending (flush ml pc s) = pending s \<and> inferCalls (flush ml pc s) = inferCalls s"
  by (simp add: flush_def Let_def render_commit restart_keeps commit_fields)

text \<open>
  C7. When the model is not loaded, \<^verbatim>\<open>startStream\<close> does nothing but report the failed
  precondition in a toast: it sets no timer, issues no inference call and queues no
  change of \<^verbatim>\<open>isStreaming\<close>. A component that was not streaming is not streaming after
  the renders that follow.
\<close>

theorem start_rejected:
  "\<not> isModelLoaded s \<Longrightarrow>
     startStream s = s\<lparr>toasts := toasts s @ [ModelNotLoaded]\<rparr>
     \<and> timers (startStream s) = timers s
     \<and> streamIntervalRef (startStream s) = streamIntervalRef s
     \<and> inferCalls (startStream s) = inferCalls s
     \<and> pending (startStream s) = pending s
     \<and> isStreaming (startStream s) = isStreaming s
     \<and> set_isStreaming (startStream s) = set_isStreaming s
     \<and> (\<not> set_isStreaming s \<longrightarrow> \<not> isStreaming (flush False pc (startStream s)))"
  by (simp add: startStream_def flush_isStreaming)

theorem start_rejected_witness:
  "\<not> isModelLoaded (initial_view False)
   \<and> toasts (startStream (initial_view False)) = [ModelNotLoaded]
   \<and> timers (startStream (initial_view False)) = []
   \<and> inferCalls (startStream (initial_view False)) = 0
   \<and> \<not> set_isStreaming (initial_view False)
   \<and> \<not> isStreaming (flush False False (startStream (initial_view False)))"
proof -
  have nl: "\<not> isModelLoaded (initial_view False)" by (simp add: initial_view_def)
  have ns: "\<not> set_isStreaming (initial_view False)" by (simp add: initial_view_def)
  have init: "toasts (initial_view False) = []" "timers (initial_view False) = []"
    "inferCalls (initial_view False) = 0"
    by (simp_all add: initial_view_def)
  from start_rejected [OF nl, of False] ns
  have "timers (startStream (initial_view False)) = timers (initial_view False)
      \<and> inferCalls (startStream (initial_view False)) = inferCalls (initial_view False)
      \<and> \<not> isStreaming (flush False False (startStream (initial_view False)))"
    by blast
  moreover have "toasts (startStream (initial_view False)) = [ModelNotLoaded]"
    by (simp add: startStream_def initial_view_def)
  ultimately show ?thesis using nl ns by (simp add: init)
qed

section \<open>The interval timer\<close>

lemma timers_inv_initial: "timers_inv (initial_view ml)"
  by (simp add: timers_inv_def settled_def single_timer_def initial_view_def)

lemma restart_timer:
  "timer_ok s \<Longrightarrow> isModelLoaded s \<Longrightarrow>
     streamIntervalRef (startStream (stopStream s)) = Some (next_handle s)
   \<and> timers (startStream (stopStream s)) = [(next_handle s, current_timer s)]"
  by (auto simp: timer_ok_def startStream_def stopStream_def clearInterval_def Let_def
        current_timer_def split: option.splits)

lemma restart_unloaded:
  "timer_ok s \<Longrightarrow> \<not> isModelLoaded s \<Longrightarrow>
     streamIntervalRef (startStream (stopStream s)) = None
   \<and> timers (startStream (stopStream s)) = []"
  by (auto simp: timer_ok_def startStream_def stopStream_def clearInterval_def Let_def
        split: option.splits)

lemma commit_timer_ok: "timer_ok (commit ml s) = timer_ok s"
  by (simp add: timer_ok_def commit_fields split: option.split)

lemma commit_settled: "settled (commit ml s)"
  by (simp add: settled_def commit_fields)

lemma commit_same: "settled s \<Longrightarrow> ml = isModelLoaded s \<Longrightarrow> commit ml s = s"
  by (simp add: settled_def commit_def)

lemma render_inv_restart:
  assumes "ready s" "set_isStreaming s" "ml"
  shows "timers_inv (startStream (stopStream (commit ml s)))"
proof -
  let ?c = "commit ml s"
  let ?r = "startStream (stopStream ?c)"
  have ok: "timer_ok ?c" using assms(1) by (simp add: ready_def commit_timer_ok)
  have ld: "isModelLoaded ?c" using assms(3) by (simp add: commit_fields)
  note t = restart_timer [OF ok ld]
  note k = restart_keeps [of ?c]
  have st: "set_isStreaming ?r" using ld by (simp add: restart_set_isStreaming)
  have ct: "current_timer ?r = current_timer ?c"
    using k by (simp add: current_timer_def)
  have "settled ?r" using st k assms(2) by (simp add: settled_def commit_fields)
  moreover have "single_timer ?r"
    using t k ct assms(2,3) by (simp add: single_timer_def commit_fields)
  ultimately show ?thesis by (simp add: timers_inv_def)
qed

lemma render_inv_stopped:
  assumes "ready s" "\<not> set_isStreaming s"
  shows "timers_inv (commit ml s)"
proof -
  have "streamIntervalRef s = None" "timers s = []"
    using assms by (auto simp: ready_def timer_ok_def)
  then have "single_timer (commit ml s)"
    using assms(2) by (simp add: single_timer_def commit_fields)
  then show ?thesis by (simp add: timers_inv_def commit_settled)
qed

lemma render_unloaded:
  assumes "ready s" "set_isStreaming s" "\<not> ml"
  shows "ready (startStream (stopStream (commit ml s)))
       \<and> \<not> set_isStreaming (startStream (stopStream (commit ml s)))"
proof -
  let ?c = "commit ml s"
  have ok: "timer_ok ?c" using assms(1) by (simp add: ready_def commit_timer_ok)
  have ld: "\<not> isModelLoaded ?c" using assms(3) by (simp add: commit_fields)
  note t = restart_unloaded [OF ok ld]
  show ?thesis using t ld
    by (simp add: ready_def timer_ok_def restart_set_isStreaming)
qed

lemma inv_render_same: "timers_inv s \<Longrightarrow> render (isModelLoaded s) False s = s"
  by (simp add: render_commit timers_inv_def commit_same)

lemma flush_inv:
  assumes r: "ready s"
    and same: "settled s \<and> ml = isModelLoaded s \<and> \<not> pc \<longrightarrow> single_timer s"
  shows "timers_inv (flush ml pc s)"
proof -
  let ?r1 = "render ml pc s"
  have fl: "flush ml pc s = render ml False ?r1" by (simp add: flush_def Let_def)
  have second: "timers_inv x \<Longrightarrow> isModelLoaded x = ml \<Longrightarrow> timers_inv (render ml False x)" for x
    using inv_render_same [of x] by simp
  show ?thesis
  proof (cases "pc \<or> ml \<noteq> isModelLoaded s \<or> \<not> settled s")
    case False
    then have "commit ml s = s" by (simp add: commit_same)
    then have r1: "?r1 = s" using False by (simp add: render_commit)
    have "timers_inv s" using False same by (simp add: timers_inv_def)
    then show ?thesis using fl r1 second False by simp
  next
    case changed: True
    show ?thesis
    proof (cases "set_isStreaming s")
      case False
      then have r1: "?r1 = commit ml s" by (simp add: render_commit)
      have "timers_inv (commit ml s)" using r False by (rule render_inv_stopped)
      then show ?thesis using fl r1 second by (simp add: commit_fields)
    next
      case str: True
      then have r1: "?r1 = startStream (stopStream (commit ml s))"
        using changed by (simp add: render_commit)
      show ?thesis
      proof (cases ml)
        case True
        have "timers_inv ?r1" unfolding r1 using r str True by (rule render_inv_restart)
        moreover have "isModelLoaded ?r1 = ml" by (rule render_isModelLoaded)
        ultimately show ?thesis using fl second by simp
      next
        case False
        have rd: "ready ?r1" and ns: "\<not> set_isStreaming ?r1"
          unfolding r1 using render_unloaded [OF r str False] by simp_all
        have "render ml False ?r1 = commit ml ?r1"
          using ns by (simp add: render_commit)
        moreover have "timers_inv (commit ml ?r1)" using rd ns by (rule render_inv_stopped)
        ultimately show ?thesis using fl by simp
      qed
    qed
  qed
qed

lemma inv_ready: "timers_inv s \<Longrightarrow> ready s"
  by (auto simp: timers_inv_def ready_def settled_def single_timer_def timer_ok_def
        split: option.splits)

lemma tick_inv:
  "timers_inv s \<Longrightarrow>
     tick t s = (if isStreaming s \<and> \<not> isProcessing s then processFrame_call True t s else s)"
  by (auto simp: timers_inv_def single_timer_def tick_def fire_def current_timer_def
        split: option.splits)

text \<open>A handler that leaves the timer, its handle and the committed state alone.\<close>

lemma quiet_handler:
  assumes inv: "timers_inv s"
    and same: "timers s' = timers s" "streamIntervalRef s' = streamIntervalRef s"
      "isStreaming s' = isStreaming s" "isModelLoaded s' = isModelLoaded s"
      "isProcessing s' = isProcessing s" "stream_fps s' = stream_fps s"
      "set_isStreaming s' = set_isStreaming s"
  shows "ready s' \<and> (settled s' \<longrightarrow> single_timer s') \<and> isModelLoaded s' = isModelLoaded s"
proof -
  have "ready s" using inv by (rule inv_ready)
  then have "ready s'"
    using same by (simp add: ready_def timer_ok_def split: option.splits)
  moreover have "single_timer s" using inv by (simp add: timers_inv_def)
  then have "single_timer s'"
    using same by (simp add: single_timer_def current_timer_def split: option.splits)
  ultimately show ?thesis using same by simp
qed

lemma call_quiet:
  "timers (processFrame_call ml t s) = timers s
   \<and> streamIntervalRef (processFrame_call ml t s) = streamIntervalRef s
   \<and> isStreaming (processFrame_call ml t s) = isStreaming s
   \<and> isModelLoaded (processFrame_call ml t s) = isModelLoaded s
   \<and> isProcessing (processFrame_call ml t s) = isProcessing s
   \<and> stream_fps (processFrame_call ml t s) = stream_fps s
   \<and> set_isStreaming (processFrame_call ml t s) = set_isStreaming s"
  by (simp add: processFrame_call_def)

lemma settle_quiet:
  "timers (processFrame_settle k outcome clk s) = timers s
   \<and> streamIntervalRef (processFrame_settle k outcome clk s) = streamIntervalRef s
   \<and> isStreaming (processFrame_settle k outcome clk s) = isStreaming s
   \<and> isModelLoaded (processFrame_settle k outcome clk s) = isModelLoaded s
   \<and> isProcessing (processFrame_settle k outcome clk s) = isProcessing s
   \<and> stream_fps (processFrame_settle k outcome clk s) = stream_fps s
   \<and> set_isStreaming (processFrame_settle k outcome clk s) = set_isStreaming s"
  by (cases outcome)
     (simp_all add: processFrame_settle_def on_response_def Let_def split: option.split)

lemma handle_ready:
  assumes "timers_inv s"
  shows "ready (handle e s) \<and> (settled (handle e s) \<longrightarrow> single_timer (handle e s))
         \<and> isModelLoaded (handle e s) = isModelLoaded s"
proof (cases e)
  case ClickStart
  show ?thesis
  proof (cases "\<not> isStreaming s \<and> isModelLoaded s")
    case True
    then have "streamIntervalRef s = None" "timers s = []"
      using assms by (auto simp: timers_inv_def single_timer_def split: option.splits)
    moreover have "settled s" using assms by (simp add: timers_inv_def)
    ultimately show ?thesis using True ClickStart
      by (simp add: startStream_def Let_def ready_def timer_ok_def settled_def)
  next
    case False
    then have "handle e s = s" using ClickStart by auto
    then show ?thesis using assms inv_ready [OF assms] by (simp add: timers_inv_def)
  qed
next
  case ClickStop
  show ?thesis
  proof (cases "isStreaming s")
    case True
    then obtain h where "streamIntervalRef s = Some h" "timers s = [(h, current_timer s)]"
      using assms by (auto simp: timers_inv_def single_timer_def split: option.splits)
    moreover have "settled s" using assms by (simp add: timers_inv_def)
    ultimately show ?thesis using True ClickStop
      by (simp add: stopStream_def Let_def ready_def timer_ok_def settled_def clearInterval_def)
  next
    case False
    then have "handle e s = s" using ClickStop by auto
    then show ?thesis using assms inv_ready [OF assms] by (simp add: timers_inv_def)
  qed
next
  case (ClickCapture t)
  show ?thesis
  proof (cases "\<not> isModelLoaded s \<or> isProcessing s")
    case True
    then have "handle e s = s" using ClickCapture by auto
    then show ?thesis using assms inv_ready [OF assms] by (simp add: timers_inv_def)
  next
    case False
    then have "handle e s = processFrame_call (isModelLoaded s) t s"
      using ClickCapture by (simp add: captureFrame_def)
    then show ?thesis using quiet_handler [OF assms] call_quiet by simp
  qed
next
  case ToggleOverlay
  then show ?thesis using quiet_handler [OF assms, of "s\<lparr>set_showOverlay := \<not> showOverlay s\<rparr>"]
    by simp
next
  case (SelectFps v)
  then show ?thesis using quiet_handler [OF assms, of "s\<lparr>set_fps := v\<rparr>"] by simp
next
  case (Upload t)
  then have "handle e s = processFrame_call (isModelLoaded s) t s"
    by (simp add: handleImageUpload_def)
  then show ?thesis using quiet_handler [OF assms] call_quiet by simp
next
  case (Tick t)
  show ?thesis
  proof (cases "isStreaming s \<and> \<not> isProcessing s")
    case True
    then have "handle e s = processFrame_call True t s"
      using Tick tick_inv [OF assms] by simp
    then show ?thesis using quiet_handler [OF assms] call_quiet by simp
  next
    case False
    then have "handle e s = s" using Tick tick_inv [OF assms] by auto
    then show ?thesis using assms inv_ready [OF assms] by (simp add: timers_inv_def)
  qed
next
  case (Settle k outcome clk)
  then show ?thesis using quiet_handler [OF assms] settle_quiet by simp
next
  case (ParentRender ml)
  then have "handle e s = s" by simp
  then show ?thesis using assms inv_ready [OF assms] by (simp add: timers_inv_def)
qed

lemma step_inv: "timers_inv s \<Longrightarrow> timers_inv (step s e)"
proof (cases e)
  case (ParentRender ml)
  assume "timers_inv s"
  then have "ready s" by (rule inv_ready)
  then show ?thesis using ParentRender by (simp add: flush_inv)
qed (use handle_ready [of s e] in \<open>auto intro!: flush_inv\<close>)

lemma run_snoc: "run (evs @ [e]) s = step (run evs s) e"
  by (simp add: run_def)

lemma run_inv: "timers_inv s \<Longrightarrow> timers_inv (run evs s)"
  by (induction evs rule: rev_induct) (simp_all add: run_snoc step_inv, simp add: run_def)


section \<open>Inferences in flight\<close>

lemma render_isProcessing:
  "isProcessing (render ml pc s) = set_isProcessing s
   \<and> set_isProcessing (render ml pc s) = set_isProcessing s"
  by (simp add: render_commit restart_keeps commit_fields)

lemma flush_isProcessing: "isProcessing (flush ml pc s) = set_isProcessing s"
  by (simp add: flush_def Let_def render_isProcessing)

lemma flush_one_in_flight: "flight_ready s \<Longrightarrow> one_in_flight (flush ml pc s)"
  by (simp add: flight_ready_def one_in_flight_def flush_keeps flush_isProcessing)

lemma settle_fields:
  "set_isStreaming (processFrame_settle k outcome clk s) = set_isStreaming s
   \<and> inferCalls (processFrame_settle k outcome clk s) = inferCalls s
   \<and> pending (processFrame_settle k outcome clk s) =
       (if k < length (pending s) then take k (pending s) @ drop (Suc k) (pending s)
        else pending s)
   \<and> set_isProcessing (processFrame_settle k outcome clk s) =
       (if k < length (pending s) then False else set_isProcessing s)"
  by (cases outcome)
     (simp_all add: processFrame_settle_def on_response_def Let_def split: option.split)

lemma handle_flight:
  assumes inv: "timers_inv s" and one: "one_in_flight s" and g: "guarded e"
  shows "flight_ready (handle e s)"
proof -
  have st: "set_isProcessing s = isProcessing s"
    using inv by (simp add: timers_inv_def settled_def)
  have fr: "flight_ready s"
    using one st by (simp add: flight_ready_def one_in_flight_def)
  have idle: "\<not> isProcessing s \<Longrightarrow> flight_ready (processFrame_call True t s)" for t
    using one by (simp add: flight_ready_def one_in_flight_def processFrame_call_def)
  show ?thesis
  proof (cases e)
    case ClickStart
    then show ?thesis using fr by (simp add: flight_ready_def startStream_def Let_def)
  next
    case ClickStop
    then show ?thesis
      using fr by (simp add: flight_ready_def stopStream_def Let_def split: option.split)
  next
    case (ClickCapture t)
    then show ?thesis using fr idle [of t] by (auto simp: captureFrame_def)
  next
    case ToggleOverlay
    then show ?thesis using fr by (simp add: flight_ready_def)
  next
    case (SelectFps v)
    then show ?thesis using fr by (simp add: flight_ready_def)
  next
    case (Upload t)
    then show ?thesis using g by simp
  next
    case (Tick t)
    then show ?thesis using fr idle [of t] tick_inv [OF inv, of t] by auto
  next
    case (Settle k outcome clk)
    have "length (pending s) \<le> 1" using one by (simp add: one_in_flight_def)
    then have "k < length (pending s) \<Longrightarrow> take k (pending s) @ drop (Suc k) (pending s) = []"
      by (cases "pending s") auto
    then show ?thesis
      using Settle fr settle_fields [of k outcome clk s] by (auto simp: flight_ready_def)
  next
    case (ParentRender ml)
    then show ?thesis using fr by simp
  qed
qed

lemma step_flight:
  assumes "timers_inv s" "one_in_flight s" "guarded e"
  shows "one_in_flight (step s e)"
proof (cases e)
  case (ParentRender ml)
  then show ?thesis using handle_flight [OF assms] by (simp add: flush_one_in_flight)
qed (use handle_flight [OF assms] in \<open>simp_all add: flush_one_in_flight\<close>)

lemma run_flight:
  assumes "list_all guarded evs"
  shows "one_in_flight (run evs (initial_view ml))"
  using assms
proof (induction evs rule: rev_induct)
  case Nil
  show ?case by (simp add: run_def one_in_flight_def initial_view_def)
next
  case (snoc e evs)
  then have "one_in_flight (run evs (initial_view ml))" "guarded e" by simp_all
  moreover have "timers_inv (run evs (initial_view ml))"
    using timers_inv_initial by (rule run_inv)
  ultimately show ?case by (simp add: run_snoc step_flight)
qed

lemma step_tick_busy:
  assumes "timers_inv s" "isProcessing s"
  shows "inferCalls (step s (Tick t)) = inferCalls s \<and> pending (step s (Tick t)) = pending s
       \<and> isProcessing (step s (Tick t))"
proof -
  have "handle (Tick t) s = s" using tick_inv [OF assms(1)] assms(2) by simp
  moreover have "set_isProcessing s" using assms by (simp add: timers_inv_def settled_def)
  ultimately show ?thesis by (simp add: flush_keeps flush_isProcessing)
qed

lemma step_tick_idle:
  assumes "timers_inv s" "isStreaming s" "\<not> isProcessing s"
  shows "inferCalls (step s (Tick t)) = inferCalls s + 1
       \<and> pending (step s (Tick t)) = pending s @ [t]
       \<and> isProcessing (step s (Tick t))"
proof -
  have "handle (Tick t) s = processFrame_call True t s"
    using tick_inv [OF assms(1)] assms(2,3) by simp
  then show ?thesis
    by (simp add: flush_keeps flush_isProcessing processFrame_call_def)
qed

lemma step_streaming:
  assumes "timers_inv s" "isModelLoaded s" "\<And>ml. e \<noteq> ParentRender ml"
    "e \<noteq> ClickStart" "e \<noteq> ClickStop"
  shows "isStreaming (step s e) = isStreaming s \<and> isModelLoaded (step s e)"
proof -
  have "set_isStreaming s = isStreaming s"
    using assms(1) by (simp add: timers_inv_def settled_def)
  moreover have "set_isStreaming (handle e s) = set_isStreaming s"
    using assms(4,5) tick_inv [OF assms(1)] settle_fields call_quiet
    by (cases e) (simp_all add: captureFrame_def handleImageUpload_def)
  ultimately show ?thesis using assms(2,3)
    by (cases e) (auto simp: flush_isStreaming flush_isModelLoaded)
qed

lemma step_settle:
  assumes "k < length (pending s)"
  shows "pending (step s (Settle k outcome clk)) = take k (pending s) @ drop (Suc k) (pending s)
       \<and> inferCalls (step s (Settle k outcome clk)) = inferCalls s
       \<and> \<not> isProcessing (step s (Settle k outcome clk))"
  using assms settle_fields [of k outcome clk s] by (simp add: flush_keeps flush_isProcessing)

lemma step_upload:
  assumes "isModelLoaded s"
  shows "pending (step s (Upload t)) = pending s @ [t]
       \<and> inferCalls (step s (Upload t)) = inferCalls s + 1
       \<and> isProcessing (step s (Upload t))"
  using assms
  by (simp add: flush_keeps flush_isProcessing handleImageUpload_def processFrame_call_def)

lemma step_start:
  assumes "\<not> isStreaming s" "isModelLoaded s"
  shows "isStreaming (step s ClickStart) \<and> isModelLoaded (step s ClickStart)
       \<and> pending (step s ClickStart) = pending s
       \<and> inferCalls (step s ClickStart) = inferCalls s
       \<and> isProcessing (step s ClickStart) = set_isProcessing s"
  using assms
  by (simp add: flush_keeps flush_isStreaming flush_isModelLoaded flush_isProcessing
        startStream_def Let_def)

text \<open>
  In a session without uploads at most one inference is pending at any time, and a
  tick that arrives while one is pending issues no call and leaves nothing behind.
\<close>

lemma scheduler_single_flight:
  assumes "list_all guarded evs"
  shows "length (pending (run evs (initial_view ml))) \<le> 1
       \<and> (pending (run evs (initial_view ml)) \<noteq> [] \<longrightarrow>
            inferCalls (step (run evs (initial_view ml)) (Tick t))
              = inferCalls (run evs (initial_view ml))
          \<and> pending (step (run evs (initial_view ml)) (Tick t))
              = pending (run evs (initial_view ml)))"
proof -
  have one: "one_in_flight (run evs (initial_view ml))" using assms by (rule run_flight)
  have inv: "timers_inv (run evs (initial_view ml))"
    using timers_inv_initial by (rule run_inv)
  show ?thesis using one step_tick_busy [OF inv, of t] by (simp add: one_in_flight_def)
qed

text \<open>Start, two ticks with the first inference unresolved, its settlement, a third tick.\<close>

lemma two_ticks:
  "inferCalls (run [ClickStart, Tick t1] (initial_view True)) = 1
   \<and> pending (run [ClickStart, Tick t1] (initial_view True)) = [t1]
   \<and> isProcessing (run [ClickStart, Tick t1] (initial_view True))
   \<and> isStreaming (run [ClickStart, Tick t1] (initial_view True))
   \<and> isModelLoaded (run [ClickStart, Tick t1] (initial_view True))
   \<and> inferCalls (run [ClickStart, Tick t1, Tick t2] (initial_view True)) = 1
   \<and> pending (run [ClickStart, Tick t1, Tick t2] (initial_view True)) = [t1]
   \<and> inferCalls (run [ClickStart, Tick t1, Tick t2, Settle 0 outcome clk]
        (initial_view True)) = 1
   \<and> pending (run [ClickStart, Tick t1, Tick t2, Settle 0 outcome clk]
        (initial_view True)) = []
   \<and> inferCalls (run [ClickStart, Tick t1, Tick t2, Settle 0 outcome clk, Tick t3]
        (initial_view True)) = 2
   \<and> pending (run [ClickStart, Tick t1, Tick t2, Settle 0 outcome clk, Tick t3]
        (initial_view True)) = [t3]"
proof -
  let ?s0 = "initial_view True"
  let ?s1 = "step ?s0 ClickStart"
  let ?s2 = "step ?s1 (Tick t1)"
  let ?s3 = "step ?s2 (Tick t2)"
  let ?s4 = "step ?s3 (Settle 0 outcome clk)"
  let ?s5 = "step ?s4 (Tick t3)"
  have i0: "timers_inv ?s0" by (rule timers_inv_initial)
  have f0: "\<not> isStreaming ?s0" "isModelLoaded ?s0" "pending ?s0 = []" "inferCalls ?s0 = 0"
    "\<not> set_isProcessing ?s0"
    by (simp_all add: initial_view_def)
  have i1: "timers_inv ?s1" using i0 by (rule step_inv)
  have f1: "isStreaming ?s1" "isModelLoaded ?s1" "pending ?s1 = []" "inferCalls ?s1 = 0"
    "\<not> isProcessing ?s1"
    using step_start [OF f0(1,2)] f0(3,4,5) by simp_all
  have i2: "timers_inv ?s2" using i1 by (rule step_inv)
  have f2: "pending ?s2 = [t1]" "inferCalls ?s2 = 1" "isProcessing ?s2"
    using step_tick_idle [OF i1 f1(1,5), of t1] f1(3,4) by simp_all
  have g2: "isStreaming ?s2" "isModelLoaded ?s2"
    using step_streaming [OF i1 f1(2), of "Tick t1"] f1(1) by simp_all
  have i3: "timers_inv ?s3" using i2 by (rule step_inv)
  have f3: "pending ?s3 = [t1]" "inferCalls ?s3 = 1"
    using step_tick_busy [OF i2 f2(3), of t2] f2 by simp_all
  have g3: "isStreaming ?s3" "isModelLoaded ?s3"
    using step_streaming [OF i2 g2(2), of "Tick t2"] g2(1) by simp_all
  have i4: "timers_inv ?s4" using i3 by (rule step_inv)
  have f4: "pending ?s4 = []" "inferCalls ?s4 = 1" "\<not> isProcessing ?s4"
    using step_settle [of 0 ?s3 outcome clk] f3 by simp_all
  have g4: "isStreaming ?s4"
    using step_streaming [OF i3 g3(2), of "Settle 0 outcome clk"] g3(1) by simp
  have f5: "pending ?s5 = [t3]" "inferCalls ?s5 = 2"
    using step_tick_idle [OF i4 g4 f4(3), of t3] f4(1,2) by simp_all
  show ?thesis using f2 g2 f3 f4 f5 by (simp add: run_def)
qed

text \<open>
  C2, where the code departs from it. The file input of the upload calls
  \<^verbatim>\<open>processFrame\<close> without looking at \<^verbatim>\<open>isProcessing\<close>. An image uploaded while a
  tick's inference is pending puts a second inference in flight. When the upload's
  inference settles first, its \<^verbatim>\<open>finally\<close> block clears \<^verbatim>\<open>isProcessing\<close>, the
  effect restarts the interval with that value, and the next tick is not dropped: it
  issues a call while the call of the first tick is still pending.
\<close>

theorem upload_overlaps_cycle:
  "pending (run [ClickStart, Tick t1, Upload t2] (initial_view True)) = [t1, t2]
   \<and> inferCalls (run [ClickStart, Tick t1, Upload t2] (initial_view True)) = 2
   \<and> pending (run [ClickStart, Tick t1, Upload t2, Settle 1 outcome clk, Tick t3]
        (initial_view True)) = [t1, t3]
   \<and> inferCalls (run [ClickStart, Tick t1, Upload t2, Settle 1 outcome clk, Tick t3]
        (initial_view True)) = 3"
proof -
  let ?s2 = "run [ClickStart, Tick t1] (initial_view True)"
  let ?s3 = "step ?s2 (Upload t2)"
  let ?s4 = "step ?s3 (Settle 1 outcome clk)"
  let ?s5 = "step ?s4 (Tick t3)"
  have i2: "timers_inv ?s2" using timers_inv_initial by (rule run_inv)
  have f2: "pending ?s2 = [t1]" "inferCalls ?s2 = 1" "isStreaming ?s2" "isModelLoaded ?s2"
    using two_ticks [of t1] by blast+
  have i3: "timers_inv ?s3" using i2 by (rule step_inv)
  have f3: "pending ?s3 = [t1, t2]" "inferCalls ?s3 = 2"
    using step_upload [OF f2(4), of t2] f2(1,2) by simp_all
  have g3: "isStreaming ?s3" "isModelLoaded ?s3"
    using step_streaming [OF i2 f2(4), of "Upload t2"] f2(3) by simp_all
  have i4: "timers_inv ?s4" using i3 by (rule step_inv)
  have f4: "pending ?s4 = [t1]" "inferCalls ?s4 = 2" "\<not> isProcessing ?s4"
    using step_settle [of 1 ?s3 outcome clk] f3 by simp_all
  have g4: "isStreaming ?s4"
    using step_streaming [OF i3 g3(2), of "Settle 1 outcome clk"] g3(1) by simp
  have f5: "pending ?s5 = [t1, t3]" "inferCalls ?s5 = 3"
    using step_tick_idle [OF i4 g4 f4(3), of t3] f4(1,2) by simp_all
  have "run [ClickStart, Tick t1, Upload t2] (initial_view True) = ?s3"
    "run [ClickStart, Tick t1, Upload t2, Settle 1 outcome clk, Tick t3] (initial_view True) = ?s5"
    by (simp_all add: run_def)
  then show ?thesis using f3 f5 by simp
qed

theorem upload_overlaps_cycle_witness:
  "length (pending (run [ClickStart, Tick 0, Upload 10] (initial_view True))) = 2
   \<and> pending (run [ClickStart, Tick 0, Upload 10, Settle 1 (Inl (ErrorObject ''timeout''))
        (example_clock 60),
        Tick 560] (initial_view True)) = [0, 560]"
  using upload_overlaps_cycle [of 0 10 "Inl (ErrorObject ''timeout'')" "example_clock 60" 560]
  by simp

section \<open>The held snapshot\<close>
















end
